theory Spec2Isabelle
  imports Main
begin

section \<open>The AST node model of \<^verbatim>\<open>jaclang/jac/jac_ast.py\<close>\<close>

text \<open>
  Python objects have identity and are mutated in place, and the claims about
  \<^verbatim>\<open>replace_node\<close> depend on which object a parent pointer or a child slot refers
  to.  So nodes live in an explicit store: a reference is an address, the store maps
  every address to the object found there.  \<^verbatim>\<open>None\<close> is the \<open>None\<close> of an option.

  A child list is kept as a value inside its node.  The source stores the list object it
  is given (\<^verbatim>\<open>self.kid = kid if kid else []\<close>) and \<^verbatim>\<open>replace_node\<close> writes into
  that object in place, so a second reference to the same list object, be it an attribute
  such as \<^verbatim>\<open>names\<close> or the child list of another node, sees the write as well.  This
  sharing of list objects is not represented.  What is stated below about a call of
  \<^verbatim>\<open>replace_node\<close> is therefore limited to what reads the same in the source whether
  or not the list object is shared: the child list of the parent itself, the parent
  pointers, the class, the line and the metadata of a node (\<^verbatim>\<open>meta\<close> is a dictionary
  made anew for each node), the attribute \<^verbatim>\<open>def_link\<close>, which never holds a list, and
  the tree reached from a root, in which a list holding a node belongs to one node only.
\<close>

type_synonym ref = nat

datatype py_error = ValueError | TypeError | NameError | AttributeError | RecursionError
  | FileNotFoundError

text \<open>The values an attribute, an argument or a dictionary entry can hold.\<close>

datatype pyval = PNone | PBool bool | PInt int | PStr string | PRef ref
  | PList "pyval list" | PDict "(string \<times> pyval) list"

text \<open>
  \<^verbatim>\<open>AstNode.__init__\<close> gives every node \<^verbatim>\<open>parent\<close>, \<^verbatim>\<open>kid\<close>, \<^verbatim>\<open>line\<close> and
  \<^verbatim>\<open>meta\<close>; \<open>cls\<close> is \<^verbatim>\<open>type(self).__name__\<close> and \<open>attrs\<close> holds the attributes
  that the \<^verbatim>\<open>__init__\<close> of the concrete class sets, by name.  An entry of \<open>kid\<close> is
  \<open>None\<close> once \<^verbatim>\<open>replace_node(node, None)\<close> has emptied that slot.
\<close>

record node =
  cls :: string
  parent :: "ref option"
  kid :: "ref option list"
  line :: int
  meta :: "(string \<times> string) list"
  attrs :: "(string \<times> pyval) list"

type_synonym heap = "ref \<Rightarrow> node"

subsection \<open>\<^verbatim>\<open>replace_node\<close>\<close>

text \<open>
  \<^verbatim>\<open>list.index(x)\<close>: the position of the first element equal to \<open>x\<close>, and
  \<^verbatim>\<open>ValueError\<close> (here \<open>None\<close>) when there is none.  No class of the module defines
  \<^verbatim>\<open>__eq__\<close>, so two nodes are equal exactly when they are the same object.
\<close>

fun index_of :: "'a list \<Rightarrow> 'a \<Rightarrow> nat option" where
  "index_of [] x = None"
| "index_of (y # ys) x = (if y = x then Some 0 else map_option Suc (index_of ys x))"

text \<open>
  \<^verbatim>\<open>
  def replace_node(node, new_node):
      if node.parent:
          node.parent.kid[node.parent.kid.index(node)] = new_node
      if new_node:
          new_node.parent = node.parent
      return new_node
  \<close>
  No class defines \<^verbatim>\<open>__bool__\<close> or \<^verbatim>\<open>__len__\<close>, so a node is truthy and only
  \<^verbatim>\<open>None\<close> is falsy.  The second assignment reads \<^verbatim>\<open>node.parent\<close> in the store
  left by the first one.
\<close>

definition set_kid :: "heap \<Rightarrow> ref \<Rightarrow> nat \<Rightarrow> ref option \<Rightarrow> heap" where
  "set_kid h p i v = h(p := (h p)\<lparr>kid := (kid (h p))[i := v]\<rparr>)"

definition set_parent :: "heap \<Rightarrow> ref \<Rightarrow> ref option \<Rightarrow> heap" where
  "set_parent h r v = h(r := (h r)\<lparr>parent := v\<rparr>)"

definition replace_node :: "heap \<Rightarrow> ref \<Rightarrow> ref option \<Rightarrow> py_error + (heap \<times> ref option)" where
  "replace_node h node new_node =
     (case (case parent (h node) of
              None \<Rightarrow> Inr h
            | Some p \<Rightarrow>
                (case index_of (kid (h p)) (Some node) of
                   None \<Rightarrow> Inl ValueError
                 | Some i \<Rightarrow> Inr (set_kid h p i new_node))) of
        Inl e \<Rightarrow> Inl e
      | Inr h1 \<Rightarrow>
          Inr (case new_node of
                 None \<Rightarrow> h1
               | Some m \<Rightarrow> set_parent h1 m (parent (h1 node)), new_node))"

subsection \<open>The class hierarchy and the constructors\<close>

text \<open>
  The module declares 88 classes.  Every \<^verbatim>\<open>__init__\<close> has the same shape: it stores
  each of its own parameters in the attribute of the same name and then calls
  \<^verbatim>\<open>super().__init__(parent=parent, kid=kid, line=line)\<close>; \<^verbatim>\<open>ArchDecl\<close> also sets
  \<^verbatim>\<open>self.def_link = None\<close>.  A class is therefore listed as its name, its base class
  and, when it declares an \<^verbatim>\<open>__init__\<close> of its own, the parameters that come before
  \<^verbatim>\<open>parent\<close>, \<^verbatim>\<open>kid\<close>, \<^verbatim>\<open>line\<close> together with the other attributes it
  initialises.  The classes are listed in the order of the module.
\<close>

type_synonym init_decl = "string list \<times> (string \<times> pyval) list"

definition class_table :: "(string \<times> string \<times> init_decl option) list" where
  "class_table =
    [(''AstNode'', ''object'', Some ([], [])),
     (''Token'', ''AstNode'', Some ([''name'', ''value''], [])),
     (''Parse'', ''AstNode'', Some ([''name''], [])),
     (''Module'', ''AstNode'', Some ([''name'', ''doc'', ''body''], [])),
     (''Elements'', ''AstNode'', Some ([''elements''], [])),
     (''GlobalVars'', ''AstNode'', Some ([''doc'', ''access'', ''assignments''], [])),
     (''Test'', ''AstNode'', Some ([''name'', ''doc'', ''description'', ''body''], [])),
     (''ModuleCode'', ''AstNode'', Some ([''doc'', ''body''], [])),
     (''DocString'', ''AstNode'', Some ([''value''], [])),
     (''Import'', ''AstNode'', Some ([''lang'', ''path'', ''alias'', ''items'', ''is_absorb''], [])),
     (''ModulePath'', ''AstNode'', Some ([''path''], [])),
     (''ModuleItems'', ''AstNode'', Some ([''items''], [])),
     (''ModuleItem'', ''AstNode'', Some ([''name'', ''alias''], [])),
     (''Architype'', ''AstNode'', Some ([''name'', ''typ'', ''doc'', ''access'', ''base_classes'', ''body''], [])),
     (''ArchDecl'', ''AstNode'', Some ([''doc'', ''access'', ''typ'', ''name'', ''base_classes''], [(''def_link'', PNone)])),
     (''ArchDef'', ''AstNode'', Some ([''doc'', ''mod'', ''arch'', ''body''], [])),
     (''BaseClasses'', ''AstNode'', Some ([''base_classes''], [])),
     (''Ability'', ''AstNode'', Some ([''name'', ''is_func'', ''doc'', ''access'', ''signature'', ''body''], [])),
     (''AbilityDecl'', ''AstNode'', Some ([''doc'', ''access'', ''name'', ''signature'', ''is_func''], [])),
     (''AbilityDef'', ''AstNode'', Some ([''doc'', ''mod'', ''ability'', ''body''], [])),
     (''AbilitySpec'', ''AstNode'', Some ([''doc'', ''name'', ''arch'', ''mod'', ''signature'', ''body''], [])),
     (''ArchBlock'', ''AstNode'', Some ([''members''], [])),
     (''ArchHas'', ''AstNode'', Some ([''doc'', ''access'', ''vars''], [])),
     (''HasVarList'', ''AstNode'', Some ([''vars''], [])),
     (''HasVar'', ''AstNode'', Some ([''name'', ''type_tag'', ''value''], [])),
     (''TypeSpec'', ''AstNode'', Some ([''typ'', ''nested1'', ''nested2''], [])),
     (''ArchCan'', ''AstNode'', Some ([''name'', ''doc'', ''access'', ''signature'', ''body''], [])),
     (''ArchCanDecl'', ''AstNode'', Some ([''name'', ''doc'', ''access'', ''signature''], [])),
     (''EventSignature'', ''AstNode'', Some ([''event'', ''arch_tag_info''], [])),
     (''NameList'', ''AstNode'', Some ([''names''], [])),
     (''FuncSignature'', ''AstNode'', Some ([''params'', ''return_type''], [])),
     (''FuncParams'', ''AstNode'', Some ([''params''], [])),
     (''ParamVar'', ''HasVar'', None),
     (''CodeBlock'', ''AstNode'', Some ([''stmts''], [])),
     (''IfStmt'', ''AstNode'', Some ([''condition'', ''body'', ''elseifs'', ''else_body''], [])),
     (''ElseIfs'', ''AstNode'', Some ([''elseifs''], [])),
     (''ElseStmt'', ''AstNode'', Some ([''body''], [])),
     (''TryStmt'', ''AstNode'', Some ([''body'', ''excepts'', ''finally_body''], [])),
     (''ExceptList'', ''AstNode'', Some ([''excepts''], [])),
     (''Except'', ''AstNode'', Some ([''typ'', ''name'', ''body''], [])),
     (''FinallyStmt'', ''AstNode'', Some ([''body''], [])),
     (''IterForStmt'', ''AstNode'', Some ([''iter'', ''condition'', ''count_by'', ''body''], [])),
     (''InForStmt'', ''AstNode'', Some ([''name'', ''collection'', ''body''], [])),
     (''DictForStmt'', ''AstNode'', Some ([''k_name'', ''v_name'', ''collection'', ''body''], [])),
     (''WhileStmt'', ''AstNode'', Some ([''condition'', ''body''], [])),
     (''RaiseStmt'', ''AstNode'', Some ([''cause''], [])),
     (''AssertStmt'', ''AstNode'', Some ([''condition'', ''error_msg''], [])),
     (''CtrlStmt'', ''AstNode'', Some ([''ctrl''], [])),
     (''DeleteStmt'', ''AstNode'', Some ([''target''], [])),
     (''ReportStmt'', ''AstNode'', Some ([''expr''], [])),
     (''ReturnStmt'', ''AstNode'', Some ([''expr''], [])),
     (''YieldStmt'', ''AstNode'', Some ([''expr''], [])),
     (''IgnoreStmt'', ''AstNode'', Some ([''target''], [])),
     (''VisitStmt'', ''AstNode'', Some ([''typ'', ''target'', ''else_body''], [])),
     (''RevisitStmt'', ''AstNode'', Some ([''hops'', ''else_body''], [])),
     (''DisengageStmt'', ''AstNode'', Some ([], [])),
     (''SyncStmt'', ''AstNode'', Some ([''target''], [])),
     (''Assignment'', ''AstNode'', Some ([''is_static'', ''target'', ''value''], [])),
     (''BinaryExpr'', ''AstNode'', Some ([''left'', ''right'', ''op''], [])),
     (''IfElseExpr'', ''AstNode'', Some ([''condition'', ''value'', ''else_value''], [])),
     (''UnaryExpr'', ''AstNode'', Some ([''operand'', ''op''], [])),
     (''SpawnObjectExpr'', ''AstNode'', Some ([''target''], [])),
     (''UnpackExpr'', ''AstNode'', Some ([''target'', ''is_dict''], [])),
     (''MultiString'', ''AstNode'', Some ([''strings''], [])),
     (''ListVal'', ''AstNode'', Some ([''values''], [])),
     (''ExprList'', ''ListVal'', None),
     (''DictVal'', ''AstNode'', Some ([''kv_pairs''], [])),
     (''Comprehension'', ''AstNode'', Some ([''key_expr'', ''out_expr'', ''name'', ''collection'', ''conditional''], [])),
     (''KVPair'', ''AstNode'', Some ([''key'', ''value''], [])),
     (''AtomTrailer'', ''AstNode'', Some ([''target'', ''right'', ''null_ok''], [])),
     (''FuncCall'', ''AstNode'', Some ([''target'', ''params''], [])),
     (''ParamList'', ''AstNode'', Some ([''p_args'', ''p_kwargs''], [])),
     (''AssignmentList'', ''ExprList'', None),
     (''IndexSlice'', ''AstNode'', Some ([''start'', ''stop''], [])),
     (''GlobalRef'', ''AstNode'', Some ([''name''], [])),
     (''HereRef'', ''AstNode'', Some ([''name''], [])),
     (''VisitorRef'', ''HereRef'', None),
     (''NodeRef'', ''GlobalRef'', None),
     (''EdgeRef'', ''GlobalRef'', None),
     (''WalkerRef'', ''GlobalRef'', None),
     (''FuncRef'', ''GlobalRef'', None),
     (''ObjectRef'', ''GlobalRef'', None),
     (''AbilityRef'', ''GlobalRef'', None),
     (''EdgeOpRef'', ''AstNode'', Some ([''filter_cond'', ''edge_dir''], [])),
     (''DisconnectOp'', ''EdgeOpRef'', None),
     (''ConnectOp'', ''AstNode'', Some ([''spawn'', ''edge_dir''], [])),
     (''SpawnCtx'', ''AstNode'', Some ([''spawns''], [])),
     (''FilterCtx'', ''AstNode'', Some ([''compares''], []))]"

text \<open>
  Method resolution: the \<^verbatim>\<open>__init__\<close> of a class is its own, or else the one its
  base class resolves to.  The fuel is the number of classes, which bounds every chain of
  base classes.
\<close>

fun lookup_init :: "nat \<Rightarrow> string \<Rightarrow> init_decl option" where
  "lookup_init 0 c = None"
| "lookup_init (Suc n) c =
     (case map_of class_table c of
        None \<Rightarrow> None
      | Some (b, Some i) \<Rightarrow> Some i
      | Some (b, None) \<Rightarrow> lookup_init n b)"

definition init_of :: "string \<Rightarrow> init_decl option" where
  "init_of c = lookup_init (length class_table) c"

text \<open>\<^verbatim>\<open>issubclass(c, t)\<close>, which \<^verbatim>\<open>isinstance\<close> applies to the class of an object.\<close>

fun subclass_upto :: "nat \<Rightarrow> string \<Rightarrow> string \<Rightarrow> bool" where
  "subclass_upto 0 c t = (c = t)"
| "subclass_upto (Suc n) c t =
     (c = t \<or> (case map_of class_table c of
                  None \<Rightarrow> False
                | Some (b, _) \<Rightarrow> subclass_upto n b t))"

definition issubclass :: "string \<Rightarrow> string \<Rightarrow> bool" where
  "issubclass c t = subclass_upto (length class_table) c t"

definition isinstance :: "node \<Rightarrow> string \<Rightarrow> bool" where
  "isinstance n t = issubclass (cls n) t"

text \<open>
  \<^verbatim>\<open>
  def __init__(self, parent, kid, line):
      self.parent = parent
      self.kid = kid if kid else []
      self.line = line
      self.meta = {}
  \<close>
\<close>

definition AstNode_init :: "node \<Rightarrow> ref option \<Rightarrow> ref option list \<Rightarrow> int \<Rightarrow> node" where
  "AstNode_init self parent' kid' line' =
     self\<lparr>parent := parent', kid := (if kid' \<noteq> [] then kid' else []), line := line', meta := []\<rparr>"

text \<open>
  A call \<^verbatim>\<open>C(a1, ..., ak, parent, kid, line)\<close>.  Python raises \<^verbatim>\<open>NameError\<close> for a
  name that is no class of the module and \<^verbatim>\<open>TypeError\<close> for a wrong number of
  arguments; it checks no type annotation, so any value is accepted in any slot.
\<close>

definition construct ::
  "string \<Rightarrow> pyval list \<Rightarrow> ref option \<Rightarrow> ref option list \<Rightarrow> int \<Rightarrow> py_error + node" where
  "construct c args parent' kid' line' =
     (case init_of c of
        None \<Rightarrow> Inl NameError
      | Some (params, extra) \<Rightarrow>
          if length args \<noteq> length params then Inl TypeError
          else Inr (AstNode_init
                      \<lparr>cls = c, parent = None, kid = [], line = 0, meta = [],
                       attrs = zip params args @ extra\<rparr> parent' kid' line'))"

definition opt_ref :: "ref option \<Rightarrow> pyval" where
  "opt_ref r = (case r of None \<Rightarrow> PNone | Some a \<Rightarrow> PRef a)"

definition Token ::
  "string \<Rightarrow> string \<Rightarrow> ref option \<Rightarrow> ref option list \<Rightarrow> int \<Rightarrow> py_error + node" where
  "Token name value = construct ''Token'' [PStr name, PStr value]"

definition DocString ::
  "ref option \<Rightarrow> ref option \<Rightarrow> ref option list \<Rightarrow> int \<Rightarrow> py_error + node" where
  "DocString value = construct ''DocString'' [opt_ref value]"

definition ArchDecl ::
  "pyval \<Rightarrow> pyval \<Rightarrow> pyval \<Rightarrow> pyval \<Rightarrow> pyval \<Rightarrow> ref option \<Rightarrow> ref option list \<Rightarrow> int
     \<Rightarrow> py_error + node" where
  "ArchDecl doc access typ name base_classes =
     construct ''ArchDecl'' [doc, access, typ, name, base_classes]"

definition NodeRef :: "pyval \<Rightarrow> ref option \<Rightarrow> ref option list \<Rightarrow> int \<Rightarrow> py_error + node" where
  "NodeRef name = construct ''NodeRef'' [name]"

definition get_attr :: "node \<Rightarrow> string \<Rightarrow> py_error + pyval" where
  "get_attr n a = (case map_of (attrs n) a of None \<Rightarrow> Inl AttributeError | Some v \<Rightarrow> Inr v)"

text \<open>The kinds of node whose constructor has a \<^verbatim>\<open>doc\<close> parameter.\<close>

definition has_doc :: "string \<Rightarrow> bool" where
  "has_doc c = (case init_of c of None \<Rightarrow> False | Some (params, extra) \<Rightarrow> ''doc'' \<in> set params)"

definition doc_classes :: "string list" where
  "doc_classes = filter has_doc (map fst class_table)"

text \<open>
  What \<^verbatim>\<open>def_link\<close> is declared to hold, \<^verbatim>\<open>Optional["ArchDef"]\<close>: nothing, or one
  reference.
\<close>

fun single_link :: "pyval \<Rightarrow> bool" where
  "single_link PNone = True"
| "single_link (PRef r) = True"
| "single_link v = False"

subsection \<open>\<^verbatim>\<open>is_type\<close> and \<^verbatim>\<open>to_dict\<close>\<close>

text \<open>\<^verbatim>\<open>return type(self) == typ\<close>\<close>

definition is_type :: "node \<Rightarrow> string \<Rightarrow> bool" where
  "is_type self typ = (cls self = typ)"

text \<open>\<^verbatim>\<open>[x for x in self.kid if x]\<close>: the children that are not \<^verbatim>\<open>None\<close>, in order.\<close>

fun live :: "ref option list \<Rightarrow> ref list" where
  "live [] = []"
| "live (None # xs) = live xs"
| "live (Some c # xs) = c # live xs"

text \<open>A list of results evaluated from left to right: the first exception is raised.\<close>

fun collect :: "(py_error + 'a) list \<Rightarrow> py_error + 'a list" where
  "collect [] = Inr []"
| "collect (Inl e # xs) = Inl e"
| "collect (Inr v # xs) = (case collect xs of Inl e \<Rightarrow> Inl e | Inr vs \<Rightarrow> Inr (v # vs))"

text \<open>\<^verbatim>\<open>d[k] = v\<close> on a dictionary kept in insertion order.\<close>

definition dict_set :: "(string \<times> pyval) list \<Rightarrow> string \<Rightarrow> pyval \<Rightarrow> (string \<times> pyval) list" where
  "dict_set d k v =
     (if k \<in> fst ` set d then map (\<lambda>(k', v'). if k' = k then (k', v) else (k', v')) d
      else d @ [(k, v)])"

text \<open>
  \<^verbatim>\<open>
  def to_dict(self):
      ret = {"node": str(type(self).__name__),
             "kid": [x.to_dict() for x in self.kid if x],
             "line": self.line}
      if type(self) == Token:
          ret["name"] = self.name
          ret["value"] = self.value
      return ret
  \<close>
  The recursion follows the child lists through the store, so it need not end; the first
  argument is the number of nested calls the interpreter still allows, and running out of
  it is the \<^verbatim>\<open>RecursionError\<close> Python raises.
\<close>

fun to_dict :: "nat \<Rightarrow> heap \<Rightarrow> ref \<Rightarrow> py_error + pyval" where
  "to_dict 0 h self = Inl RecursionError"
| "to_dict (Suc n) h self =
     (case collect (map (to_dict n h) (live (kid (h self)))) of
        Inl e \<Rightarrow> Inl e
      | Inr ks \<Rightarrow>
          (let ret = [(''node'', PStr (cls (h self))), (''kid'', PList ks),
                      (''line'', PInt (line (h self)))]
           in if cls (h self) = ''Token''
              then (case get_attr (h self) ''name'' of
                      Inl e \<Rightarrow> Inl e
                    | Inr nm \<Rightarrow>
                        (case get_attr (h self) ''value'' of
                           Inl e \<Rightarrow> Inl e
                         | Inr vl \<Rightarrow>
                             Inr (PDict (dict_set (dict_set ret ''name'' nm) ''value'' vl))))
              else Inr (PDict ret)))"

text \<open>
  The nodes on which \<open>n\<close> nested calls suffice: the tree below the node is at most \<open>n\<close>
  deep, and each \<^verbatim>\<open>Token\<close> in it has the two attributes its constructor sets.
\<close>

fun fits :: "nat \<Rightarrow> heap \<Rightarrow> ref \<Rightarrow> bool" where
  "fits 0 h r = False"
| "fits (Suc n) h r =
     ((cls (h r) = ''Token'' \<longrightarrow>
         map_of (attrs (h r)) ''name'' \<noteq> None \<and> map_of (attrs (h r)) ''value'' \<noteq> None)
      \<and> (\<forall>c \<in> set (live (kid (h r))). fits n h c))"

subsection \<open>Example stores\<close>

definition blank :: node where
  "blank = \<lparr>cls = ''AstNode'', parent = None, kid = [], line = 0, meta = [], attrs = []\<rparr>"

definition tok :: "string \<Rightarrow> ref option \<Rightarrow> int \<Rightarrow> node" where
  "tok v p l = \<lparr>cls = ''Token'', parent = p, kid = [], line = l, meta = [],
                attrs = [(''name'', PStr ''NAME''), (''value'', PStr v)]\<rparr>"

text \<open>
  A node at address 0 with the two tokens at 1 and 2 as its children; every other address
  holds a node with no parent and no child.
\<close>

definition ex_heap :: heap where
  "ex_heap = (\<lambda>_. blank)
     (0 := \<lparr>cls = ''NameList'', parent = None, kid = [Some 1, Some 2], line = 1,
            meta = [(''scope'', ''global'')], attrs = [(''names'', PList [PRef 1, PRef 2])]\<rparr>,
      1 := tok ''a'' (Some 0) 1,
      2 := tok ''b'' (Some 0) 2)"

text \<open>
  An \<^verbatim>\<open>ArchDecl\<close> as its constructor leaves it, stored at address 5 of the example
  store, and a \<^verbatim>\<open>NodeRef\<close>.
\<close>

definition ex_decl :: node where
  "ex_decl = \<lparr>cls = ''ArchDecl'', parent = Some 0, kid = [], line = 3, meta = [],
              attrs = [(''doc'', PNone), (''access'', PNone), (''typ'', PRef 1),
                       (''name'', PRef 2), (''base_classes'', PNone), (''def_link'', PNone)]\<rparr>"

definition ex_decl_heap :: heap where
  "ex_decl_heap = ex_heap(5 := ex_decl)"

definition ex_noderef :: node where
  "ex_noderef = \<lparr>cls = ''NodeRef'', parent = Some 0, kid = [], line = 4, meta = [],
                 attrs = [(''name'', PRef 1)]\<rparr>"

text \<open>The store after \<^verbatim>\<open>replace_node\<close> has put the token at 2 in the place of its sibling at 1.\<close>

definition ex_dup :: heap where
  "ex_dup = set_parent (set_kid ex_heap 0 0 (Some 2)) 2 (Some 0)"

text \<open>A chain: the node at 0 has the node at 1 as its child, which has the token at 2.\<close>

definition ex_chain :: heap where
  "ex_chain = (\<lambda>_. blank)
     (0 := blank\<lparr>cls := ''CodeBlock'', kid := [Some 1]\<rparr>,
      1 := blank\<lparr>cls := ''ExprList'', parent := Some 0, kid := [Some 2]\<rparr>,
      2 := tok ''a'' (Some 1) 1)"

subsection \<open>The \<^verbatim>\<open>def_link\<close> of a declaration\<close>

text \<open>The attribute is there and holds nothing or one reference.\<close>

definition link_ok :: "node \<Rightarrow> bool" where
  "link_ok n = (case get_attr n ''def_link'' of Inl e \<Rightarrow> False | Inr v \<Rightarrow> single_link v)"

subsection \<open>Tree consistency\<close>

text \<open>
  The tree of a root: the nodes reached from it through child lists.  A node that
  \<^verbatim>\<open>replace_node\<close> has cut out keeps its parent pointer but is no longer in the tree.
\<close>

inductive_set tree :: "heap \<Rightarrow> ref \<Rightarrow> ref set" for h :: heap and root :: ref where
  root: "root \<in> tree h root"
| child: "p \<in> tree h root \<Longrightarrow> Some c \<in> set (kid (h p)) \<Longrightarrow> c \<in> tree h root"

text \<open>
  The invariant of the specification, for the tree of \<open>root\<close>: the parent of every
  node other than the root is a node of the tree whose child list contains the node
  exactly once; no node is in the child lists of two nodes; the root is in no child list.
  The last two say that no node is at two positions of the tree, the first excluding a
  second position in the same list.
\<close>

definition consistent :: "heap \<Rightarrow> ref \<Rightarrow> bool" where
  "consistent h root \<longleftrightarrow>
     (\<forall>c \<in> tree h root. c \<noteq> root \<longrightarrow>
        (\<exists>p \<in> tree h root. parent (h c) = Some p \<and> count_list (kid (h p)) (Some c) = 1))
     \<and> (\<forall>p \<in> tree h root. \<forall>q \<in> tree h root. \<forall>c.
          Some c \<in> set (kid (h p)) \<longrightarrow> Some c \<in> set (kid (h q)) \<longrightarrow> p = q)
     \<and> (\<forall>p \<in> tree h root. Some root \<notin> set (kid (h p)))"

text \<open>What is left of the tree of \<open>root\<close> when \<open>node\<close> is cut out of it.\<close>

definition remainder :: "heap \<Rightarrow> ref \<Rightarrow> ref \<Rightarrow> ref set" where
  "remainder h root node =
     (case replace_node h node None of Inl e \<Rightarrow> tree h root | Inr (h', r) \<Rightarrow> tree h' root)"

section \<open>The pass schedule of \<^verbatim>\<open>jaclang/jac/passes/main/__init__.py\<close>\<close>

text \<open>The passes the package imports and exports.\<close>

datatype pass_name = SubNodeTabPass | ImportPass | SymTabBuildPass | DeclDefMatchPass
  | DefUsePass | PyOutPass | JacFormatPass | PyastBuildPass | PyastGenPass

text \<open>
  Modelled from the spec: the module \<^verbatim>\<open>schedules\<close>, which defines
  \<^verbatim>\<open>py_code_gen\<close>, is not among the sources.  The specification (sections 1 and 2)
  gives the stages of the pipeline and their order: import resolution, symbol-table
  construction, declaration/definition linking, definition-use resolution, lowering to
  the host-language AST.  Each stage is named by the pass class of the package that
  carries it out; \<^verbatim>\<open>PyastGenPass\<close> is taken to be the one that lowers to the Python
  AST.
\<close>

definition py_code_gen :: "pass_name list" where
  "py_code_gen = [ImportPass, SymTabBuildPass, DeclDefMatchPass, DefUsePass, PyastGenPass]"

text \<open>\<^verbatim>\<open>pass_schedule = py_code_gen\<close>\<close>

definition pass_schedule :: "pass_name list" where
  "pass_schedule = py_code_gen"

text \<open>A schedule is run from its first pass to its last: \<open>a\<close> runs before \<open>b\<close>.\<close>

definition runs_before :: "pass_name list \<Rightarrow> pass_name \<Rightarrow> pass_name \<Rightarrow> bool" where
  "runs_before s a b =
     (case index_of s a of
        None \<Rightarrow> False
      | Some i \<Rightarrow> (case index_of s b of None \<Rightarrow> False | Some j \<Rightarrow> i < j))"

section \<open>AST build, \<^verbatim>\<open>jaclang/jac/ast_build.py\<close>\<close>









section \<open>Properties of \<^verbatim>\<open>replace_node\<close>\<close>

lemma index_of_Some_iff: "(\<exists>i. index_of xs x = Some i) \<longleftrightarrow> x \<in> set xs"
  by (induction xs) auto

lemma index_of_less: "index_of xs x = Some i \<Longrightarrow> i < length xs"
  by (induction xs arbitrary: i) (auto split: if_splits)

lemma index_of_nth: "index_of xs x = Some i \<Longrightarrow> xs ! i = x"
  by (induction xs arbitrary: i) (auto split: if_splits)

lemma index_of_first: "index_of xs x = Some i \<Longrightarrow> j < i \<Longrightarrow> xs ! j \<noteq> x"
proof (induction xs arbitrary: i j)
  case Nil
  then show ?case by simp
next
  case (Cons y ys)
  show ?case
  proof (cases "y = x")
    case True
    with Cons.prems show ?thesis by simp
  next
    case False
    with Cons.prems obtain i' where i': "index_of ys x = Some i'" "i = Suc i'"
      by auto
    show ?thesis
    proof (cases j)
      case 0
      with False show ?thesis by simp
    next
      case (Suc j')
      with Cons.prems i' have "j' < i'" by simp
      with Cons.IH i' Suc show ?thesis by simp
    qed
  qed
qed

lemma kid_set_kid: "kid (set_kid h p i v q) = (if q = p then (kid (h p))[i := v] else kid (h q))"
  by (simp add: set_kid_def)

lemma parent_set_kid: "parent (set_kid h p i v q) = parent (h q)"
  by (simp add: set_kid_def)

lemma kid_set_parent: "kid (set_parent h r v q) = kid (h q)"
  by (simp add: set_parent_def)

lemma parent_set_parent: "parent (set_parent h r v q) = (if q = r then v else parent (h q))"
  by (simp add: set_parent_def)

lemma replace_node_Some:
  assumes "parent (h node) = Some p" and "index_of (kid (h p)) (Some node) = Some i"
  shows "replace_node h node new_node =
           Inr (case new_node of
                  None \<Rightarrow> set_kid h p i None
                | Some m \<Rightarrow> set_parent (set_kid h p i new_node) m (Some p), new_node)"
  using assms by (simp add: replace_node_def parent_set_kid split: option.splits)

text \<open>
  C8.  Let \<open>node\<close> have the parent \<open>p\<close> and occur in the child list of \<open>p\<close>.  Then
  \<^verbatim>\<open>replace_node(node, new_node)\<close>, for a node or \<^verbatim>\<open>None\<close> as \<open>new_node\<close>, changes
  the one slot of that list where \<open>node\<close> stood and no other: the list keeps its length
  and every other slot holds the node it held, in the same position, so the order of the
  children is kept.  The parent is the same object as before, the parent of \<open>node\<close>, of
  the same class, and its line and its metadata are unchanged.
\<close>

theorem replace_node_frame:
  assumes "parent (h node) = Some p" and "Some node \<in> set (kid (h p))"
  shows "\<exists>h' i. replace_node h node new_node = Inr (h', new_node)
           \<and> index_of (kid (h p)) (Some node) = Some i
           \<and> length (kid (h' p)) = length (kid (h p))
           \<and> (\<forall>j < length (kid (h p)). j \<noteq> i \<longrightarrow> kid (h' p) ! j = kid (h p) ! j)
           \<and> parent (h' node) = Some p
           \<and> cls (h' p) = cls (h p) \<and> line (h' p) = line (h p) \<and> meta (h' p) = meta (h p)"
proof -
  from assms(2) obtain i where i: "index_of (kid (h p)) (Some node) = Some i"
    using index_of_Some_iff by fastforce
  show ?thesis
  proof (cases new_node)
    case None
    then have "replace_node h node new_node = Inr (set_kid h p i None, new_node)"
      using replace_node_Some [OF assms(1) i, of new_node] by simp
    then show ?thesis using i None assms(1)
      by (auto simp: set_kid_def)
  next
    case (Some m)
    then have "replace_node h node new_node =
                 Inr (set_parent (set_kid h p i new_node) m (Some p), new_node)"
      using replace_node_Some [OF assms(1) i, of new_node] by simp
    then show ?thesis using i Some assms(1)
      by (auto simp: set_kid_def set_parent_def)
  qed
qed

theorem replace_node_frame_witness:
  "parent (ex_heap 1) = Some 0 \<and> Some 1 \<in> set (kid (ex_heap 0)) \<and>
   (\<exists>h' i. replace_node ex_heap 1 None = Inr (h', None)
           \<and> index_of (kid (ex_heap 0)) (Some 1) = Some i
           \<and> length (kid (h' 0)) = length (kid (ex_heap 0))
           \<and> (\<forall>j < length (kid (ex_heap 0)). j \<noteq> i \<longrightarrow> kid (h' 0) ! j = kid (ex_heap 0) ! j)
           \<and> parent (h' 1) = Some 0
           \<and> cls (h' 0) = cls (ex_heap 0) \<and> line (h' 0) = line (ex_heap 0)
           \<and> meta (h' 0) = meta (ex_heap 0))"
  using replace_node_frame [of ex_heap 1 0 None]
  by (simp add: ex_heap_def tok_def)

section \<open>Properties of the constructors\<close>

lemma class_table_length: "\<exists>n. length class_table = Suc (Suc n)"
  unfolding class_table_def by (simp only: length_Cons) blast

lemmas lookup_simps = map_of_Cons_code list.inject list.distinct char.inject prod.inject
  simp_thms if_False if_True

lemma init_of_own: "map_of class_table c = Some (b, Some i) \<Longrightarrow> init_of c = Some i"
  using class_table_length by (auto simp: init_of_def)

lemma init_of_inherited:
  "map_of class_table c = Some (b, None) \<Longrightarrow> map_of class_table b = Some (b', Some i)
     \<Longrightarrow> init_of c = Some i"
  using class_table_length by (auto simp: init_of_def)

lemma issubclass_base: "map_of class_table c = Some (b, i) \<Longrightarrow> issubclass c b"
  using class_table_length by (auto simp: issubclass_def)

lemma map_of_Token:
  "map_of class_table ''Token'' = Some (''AstNode'', Some ([''name'', ''value''], []))"
  unfolding class_table_def by (simp only: lookup_simps)

lemma map_of_NodeRef: "map_of class_table ''NodeRef'' = Some (''GlobalRef'', None)"
  unfolding class_table_def by (simp only: lookup_simps)

lemma map_of_GlobalRef:
  "map_of class_table ''GlobalRef'' = Some (''AstNode'', Some ([''name''], []))"
  unfolding class_table_def by (simp only: lookup_simps)

lemma map_of_ArchDecl:
  "map_of class_table ''ArchDecl'' =
     Some (''AstNode'', Some ([''doc'', ''access'', ''typ'', ''name'', ''base_classes''],
                              [(''def_link'', PNone)]))"
  unfolding class_table_def by (simp only: lookup_simps)

lemma map_of_DocString:
  "map_of class_table ''DocString'' = Some (''AstNode'', Some ([''value''], []))"
  unfolding class_table_def by (simp only: lookup_simps)

lemma construct_eq:
  assumes "init_of c = Some (params, extra)" and "length args = length params"
  shows "construct c args p k l =
           Inr \<lparr>cls = c, parent = p, kid = k, line = l, meta = [],
                attrs = zip params args @ extra\<rparr>"
  using assms by (simp add: construct_def AstNode_init_def)

lemma Token_eq:
  "Token name value p k l =
     Inr \<lparr>cls = ''Token'', parent = p, kid = k, line = l, meta = [],
          attrs = [(''name'', PStr name), (''value'', PStr value)]\<rparr>"
  by (simp add: Token_def construct_eq [OF init_of_own [OF map_of_Token]])

text \<open>
  C6, as amended.  A constructed \<^verbatim>\<open>Token\<close> has the class \<^verbatim>\<open>Token\<close>, its
  \<^verbatim>\<open>name\<close> and \<^verbatim>\<open>value\<close> hold the kind name and the literal text that were
  supplied, and its child sequence is the list that was supplied as \<^verbatim>\<open>kid\<close>: it is
  empty exactly when that list is.
\<close>

theorem Token_fields:
  "\<exists>n. Token name value p k l = Inr n \<and> cls n = ''Token''
       \<and> get_attr n ''name'' = Inr (PStr name) \<and> get_attr n ''value'' = Inr (PStr value)
       \<and> kid n = k \<and> (kid n = [] \<longleftrightarrow> k = [])"
  by (simp add: Token_eq get_attr_def)

text \<open>
  The claim C6 as it is stated fails: a \<^verbatim>\<open>Token\<close> constructed with a child has that
  child.
\<close>

theorem Token_kid_counterexample:
  "map_sum id kid (Token ''NAME'' ''x'' None [Some 7] 1) = Inr [Some 7]
   \<and> map_sum id kid (Token ''NAME'' ''x'' None [Some 7] 1) \<noteq> Inr []"
  by (simp add: Token_eq)

lemma replace_node_attrs:
  assumes "replace_node h node new_node = Inr (h', r)"
  shows "attrs (h' x) = attrs (h x)"
  using assms
  by (auto simp: replace_node_def set_kid_def set_parent_def
           split: option.splits sum.splits)

text \<open>
  C7.  A newly constructed \<^verbatim>\<open>ArchDecl\<close> has \<^verbatim>\<open>def_link = None\<close>.  The attribute
  holds at most one definition, nothing or a single reference and never a list, and it
  stays so, with the value it had, over every call of \<^verbatim>\<open>replace_node\<close>, the one
  function of the module that changes nodes.
\<close>

theorem ArchDecl_def_link:
  "(\<exists>n. ArchDecl doc access typ name base_classes p k l = Inr n
        \<and> get_attr n ''def_link'' = Inr PNone \<and> link_ok n)
   \<and> (link_ok (h x) \<and> replace_node h node new_node = Inr (h', r) \<longrightarrow>
        link_ok (h' x) \<and> get_attr (h' x) ''def_link'' = get_attr (h x) ''def_link'')"
proof -
  have "ArchDecl doc access typ name base_classes p k l =
          Inr \<lparr>cls = ''ArchDecl'', parent = p, kid = k, line = l, meta = [],
               attrs = [(''doc'', doc), (''access'', access), (''typ'', typ), (''name'', name),
                        (''base_classes'', base_classes), (''def_link'', PNone)]\<rparr>"
    by (simp add: ArchDecl_def construct_eq [OF init_of_own [OF map_of_ArchDecl]])
  then have "\<exists>n. ArchDecl doc access typ name base_classes p k l = Inr n
        \<and> get_attr n ''def_link'' = Inr PNone \<and> link_ok n"
    by (simp add: get_attr_def link_ok_def)
  moreover have "link_ok (h' x) \<and> get_attr (h' x) ''def_link'' = get_attr (h x) ''def_link''"
    if "link_ok (h x)" and "replace_node h node new_node = Inr (h', r)"
    using that replace_node_attrs [OF that(2), of x] by (simp add: link_ok_def get_attr_def)
  ultimately show ?thesis by blast
qed

theorem ArchDecl_def_link_witness:
  "ArchDecl PNone PNone (PRef 1) (PRef 2) PNone (Some 0) [] 3 = Inr ex_decl
   \<and> link_ok (ex_decl_heap 5)
   \<and> replace_node ex_decl_heap 1 None = Inr (set_kid ex_decl_heap 0 0 None, None)
   \<and> link_ok (set_kid ex_decl_heap 0 0 None 5)
   \<and> get_attr (set_kid ex_decl_heap 0 0 None 5) ''def_link'' = Inr PNone"
proof -
  have a: "link_ok (ex_decl_heap 5)"
    by (simp add: ex_decl_heap_def ex_decl_def link_ok_def get_attr_def)
  have b: "replace_node ex_decl_heap 1 None = Inr (set_kid ex_decl_heap 0 0 None, None)"
    by (simp add: replace_node_def ex_decl_heap_def ex_heap_def tok_def)
  have c: "get_attr (ex_decl_heap 5) ''def_link'' = Inr PNone"
    by (simp add: ex_decl_heap_def ex_decl_def get_attr_def)
  have d: "ArchDecl PNone PNone (PRef 1) (PRef 2) PNone (Some 0) [] 3 = Inr ex_decl"
    by (simp add: ArchDecl_def construct_eq [OF init_of_own [OF map_of_ArchDecl]] ex_decl_def)
  from ArchDecl_def_link [of PNone PNone "PRef 1" "PRef 2" PNone "Some 0" "[]" 3
      ex_decl_heap 5 1 None "set_kid ex_decl_heap 0 0 None" None] a b c d
  show ?thesis by simp
qed

text \<open>
  C10.  \<^verbatim>\<open>is_type\<close> compares classes exactly: \<^verbatim>\<open>n.is_type(T)\<close> holds if and only if
  the class of \<open>n\<close> is \<open>T\<close>.  So for a \<^verbatim>\<open>NodeRef\<close>, although \<^verbatim>\<open>NodeRef\<close> is a
  subclass of \<^verbatim>\<open>GlobalRef\<close> and \<^verbatim>\<open>isinstance\<close> accepts it,
  \<^verbatim>\<open>is_type(GlobalRef)\<close> is false.
\<close>

theorem is_type_exact:
  "(is_type n t \<longleftrightarrow> cls n = t)
   \<and> (cls m = ''NodeRef'' \<longrightarrow>
        \<not> is_type m ''GlobalRef'' \<and> is_type m ''NodeRef'' \<and> isinstance m ''GlobalRef'')"
  using issubclass_base [OF map_of_NodeRef] by (auto simp: is_type_def isinstance_def)

theorem is_type_exact_witness:
  "NodeRef (PRef 1) (Some 0) [] 4 = Inr ex_noderef \<and> cls ex_noderef = ''NodeRef''
   \<and> \<not> is_type ex_noderef ''GlobalRef'' \<and> is_type ex_noderef ''NodeRef''
   \<and> isinstance ex_noderef ''GlobalRef''"
proof -
  have "NodeRef (PRef 1) (Some 0) [] 4 = Inr ex_noderef"
    by (simp add: NodeRef_def ex_noderef_def
          construct_eq [OF init_of_inherited [OF map_of_NodeRef map_of_GlobalRef]])
  moreover have "cls ex_noderef = ''NodeRef''" by (simp add: ex_noderef_def)
  ultimately show ?thesis using is_type_exact [of ex_noderef "''NodeRef''" ex_noderef] by simp
qed

section \<open>The doc slot\<close>

lemma doc_classI:
  "map_of class_table c = Some (b, Some (ps, ex)) \<Longrightarrow> ''doc'' \<in> set ps \<Longrightarrow> c \<in> set doc_classes"
  by (auto simp: doc_classes_def has_doc_def init_of_own dest!: map_of_SomeD intro: rev_image_eqI)

lemma map_of_Module:
  "map_of class_table ''Module'' = Some (''AstNode'', Some ([''name'', ''doc'', ''body''], []))"
  unfolding class_table_def by (simp only: lookup_simps)

lemma map_of_GlobalVars:
  "map_of class_table ''GlobalVars'' =
     Some (''AstNode'', Some ([''doc'', ''access'', ''assignments''], []))"
  unfolding class_table_def by (simp only: lookup_simps)

lemma map_of_Test:
  "map_of class_table ''Test'' =
     Some (''AstNode'', Some ([''name'', ''doc'', ''description'', ''body''], []))"
  unfolding class_table_def by (simp only: lookup_simps)

lemma map_of_ModuleCode:
  "map_of class_table ''ModuleCode'' = Some (''AstNode'', Some ([''doc'', ''body''], []))"
  unfolding class_table_def by (simp only: lookup_simps)

lemma map_of_Architype:
  "map_of class_table ''Architype'' =
     Some (''AstNode'',
           Some ([''name'', ''typ'', ''doc'', ''access'', ''base_classes'', ''body''], []))"
  unfolding class_table_def by (simp only: lookup_simps)

lemma map_of_Ability:
  "map_of class_table ''Ability'' =
     Some (''AstNode'',
           Some ([''name'', ''is_func'', ''doc'', ''access'', ''signature'', ''body''], []))"
  unfolding class_table_def by (simp only: lookup_simps)

lemma map_of_ArchHas:
  "map_of class_table ''ArchHas'' = Some (''AstNode'', Some ([''doc'', ''access'', ''vars''], []))"
  unfolding class_table_def by (simp only: lookup_simps)

lemma named_doc_classes:
  "set [''Module'', ''GlobalVars'', ''Test'', ''ModuleCode'', ''Architype'', ''Ability'',
        ''ArchHas''] \<subseteq> set doc_classes"
  using doc_classI [OF map_of_Module] doc_classI [OF map_of_GlobalVars]
    doc_classI [OF map_of_Test] doc_classI [OF map_of_ModuleCode]
    doc_classI [OF map_of_Architype] doc_classI [OF map_of_Ability]
    doc_classI [OF map_of_ArchHas]
  by simp

lemma map_of_zip_update:
  "index_of ps a = Some i \<Longrightarrow> length xs = length ps \<Longrightarrow> map_of (zip ps (xs[i := d])) a = Some d"
proof (induction ps arbitrary: xs i)
  case Nil
  then show ?case by simp
next
  case (Cons q qs)
  then obtain y ys where xs: "xs = y # ys" by (cases xs) auto
  show ?case
  proof (cases "q = a")
    case True
    with Cons.prems xs show ?thesis by simp
  next
    case False
    with Cons.prems obtain j where j: "index_of qs a = Some j" "i = Suc j" by auto
    with Cons.IH [of j ys] Cons.prems xs False show ?thesis by simp
  qed
qed

text \<open>
  C3.  For every kind of node whose constructor has a \<^verbatim>\<open>doc\<close> parameter, among them
  \<^verbatim>\<open>Module\<close>, \<^verbatim>\<open>GlobalVars\<close>, \<^verbatim>\<open>Test\<close>, \<^verbatim>\<open>ModuleCode\<close>, \<^verbatim>\<open>Architype\<close>,
  \<^verbatim>\<open>Ability\<close> and \<^verbatim>\<open>ArchHas\<close>, construction succeeds whatever is given for
  \<^verbatim>\<open>doc\<close>, and the node then has a \<^verbatim>\<open>doc\<close> attribute holding exactly that value:
  the slot is never left out.  An absent doc-string is such a value, either
  \<^verbatim>\<open>None\<close> itself or a \<^verbatim>\<open>DocString\<close> node, and a \<^verbatim>\<open>DocString\<close> is constructed
  with \<^verbatim>\<open>value = None\<close> and then holds \<^verbatim>\<open>None\<close> as its value.
\<close>

theorem doc_slot_accepts_absent:
  assumes "c \<in> set doc_classes" and "init_of c = Some (params, extra)"
    and "length args = length params"
  shows "(\<exists>i n. index_of params ''doc'' = Some i
            \<and> construct c (args[i := d]) p k l = Inr n \<and> cls n = c
            \<and> get_attr n ''doc'' = Inr d)
         \<and> (\<exists>ds. DocString None p' k' l' = Inr ds \<and> cls ds = ''DocString''
                \<and> get_attr ds ''value'' = Inr PNone)
         \<and> set [''Module'', ''GlobalVars'', ''Test'', ''ModuleCode'', ''Architype'', ''Ability'',
                 ''ArchHas''] \<subseteq> set doc_classes"
proof -
  from assms(1,2) have "''doc'' \<in> set params"
    by (auto simp: doc_classes_def has_doc_def)
  then obtain i where i: "index_of params ''doc'' = Some i"
    using index_of_Some_iff by fastforce
  have len: "length (args[i := d]) = length params" using assms(3) by simp
  have "map_of (zip params (args[i := d])) ''doc'' = Some d"
    using map_of_zip_update [OF i assms(3)] .
  then have "get_attr \<lparr>cls = c, parent = p, kid = k, line = l, meta = [],
                attrs = zip params (args[i := d]) @ extra\<rparr> ''doc'' = Inr d"
    by (simp add: get_attr_def)
  with construct_eq [OF assms(2) len, of p k l] i
  have first: "\<exists>i n. index_of params ''doc'' = Some i
            \<and> construct c (args[i := d]) p k l = Inr n \<and> cls n = c
            \<and> get_attr n ''doc'' = Inr d"
    by simp
  have "DocString None p' k' l' =
          Inr \<lparr>cls = ''DocString'', parent = p', kid = k', line = l', meta = [],
               attrs = [(''value'', PNone)]\<rparr>"
    by (simp add: DocString_def opt_ref_def construct_eq [OF init_of_own [OF map_of_DocString]])
  then have second: "\<exists>ds. DocString None p' k' l' = Inr ds \<and> cls ds = ''DocString''
                \<and> get_attr ds ''value'' = Inr PNone"
    by (simp add: get_attr_def)
  from first second named_doc_classes show ?thesis by blast
qed

theorem doc_slot_accepts_absent_witness:
  "''GlobalVars'' \<in> set doc_classes
   \<and> init_of ''GlobalVars'' = Some ([''doc'', ''access'', ''assignments''], [])
   \<and> (\<exists>n. construct ''GlobalVars'' [PNone, PNone, PRef 2] (Some 0) [Some 2] 1 = Inr n
          \<and> cls n = ''GlobalVars'' \<and> get_attr n ''doc'' = Inr PNone)"
proof -
  have a: "''GlobalVars'' \<in> set doc_classes" by (rule doc_classI [OF map_of_GlobalVars]) simp
  have b: "init_of ''GlobalVars'' = Some ([''doc'', ''access'', ''assignments''], [])"
    by (rule init_of_own [OF map_of_GlobalVars])
  have c: "length [PRef 9, PNone, PRef 2] = length [''doc'', ''access'', ''assignments'']"
    by simp
  from doc_slot_accepts_absent [OF a b c, of PNone "Some 0" "[Some 2]" 1] a b
  show ?thesis by auto
qed

section \<open>The pass schedule\<close>

text \<open>
  C4.  In the default schedule import resolution runs before symbol-table construction,
  that before declaration/definition linking, that before definition-use resolution, and
  that before the lowering to the host-language AST; these five passes are the whole
  schedule, each occurring once.
\<close>

theorem pass_schedule_order:
  "runs_before pass_schedule ImportPass SymTabBuildPass
   \<and> runs_before pass_schedule SymTabBuildPass DeclDefMatchPass
   \<and> runs_before pass_schedule DeclDefMatchPass DefUsePass
   \<and> runs_before pass_schedule DefUsePass PyastGenPass
   \<and> distinct pass_schedule \<and> length pass_schedule = 5"
  by (simp add: runs_before_def pass_schedule_def py_code_gen_def)

section \<open>AST build\<close>




section \<open>\<^verbatim>\<open>to_dict\<close>\<close>

lemma collect_Inr_D: "collect xs = Inr vs \<Longrightarrow> xs = map Inr vs"
proof (induction xs arbitrary: vs)
  case Nil
  then show ?case by simp
next
  case (Cons x xs)
  show ?case
  proof (cases x)
    case (Inl e)
    with Cons.prems show ?thesis by simp
  next
    case (Inr v)
    with Cons.prems obtain ws where "collect xs = Inr ws" "vs = v # ws"
      by (auto split: sum.splits)
    with Cons.IH Inr show ?thesis by simp
  qed
qed

lemma collect_all_Inr:
  assumes "\<forall>x \<in> set xs. \<exists>v. x = Inr v"
  shows "\<exists>vs. collect xs = Inr vs"
  using assms
proof (induction xs)
  case Nil
  then show ?case by simp
next
  case (Cons x xs)
  then obtain v vs where "x = Inr v" "collect xs = Inr vs" by auto
  then show ?case by simp
qed

lemma to_dict_returns: "fits n h r \<Longrightarrow> \<exists>d. to_dict n h r = Inr d"
proof (induction n arbitrary: r)
  case 0
  then show ?case by simp
next
  case (Suc n)
  then have "\<forall>x \<in> set (map (to_dict n h) (live (kid (h r)))). \<exists>v. x = Inr v"
    by auto
  then obtain ks where ks: "collect (map (to_dict n h) (live (kid (h r)))) = Inr ks"
    using collect_all_Inr by blast
  show ?case
  proof (cases "cls (h r) = ''Token''")
    case True
    with Suc.prems obtain nm vl where
      "map_of (attrs (h r)) ''name'' = Some nm" "map_of (attrs (h r)) ''value'' = Some vl"
      by auto
    with ks True show ?thesis by (simp add: get_attr_def)
  next
    case False
    with ks show ?thesis by simp
  qed
qed

text \<open>
  C9.  Let the tree below a node be within the depth the interpreter allows and let its
  tokens have the attributes their constructor sets.  Then \<^verbatim>\<open>to_dict\<close> returns a
  dictionary whose keys are \<^verbatim>\<open>node\<close>, \<^verbatim>\<open>kid\<close> and \<^verbatim>\<open>line\<close>, followed by
  \<^verbatim>\<open>name\<close> and \<^verbatim>\<open>value\<close> exactly when the class of the node is \<^verbatim>\<open>Token\<close>.
  Under \<^verbatim>\<open>node\<close> is the name of the class, under \<^verbatim>\<open>line\<close> the line, and under
  \<^verbatim>\<open>kid\<close> the list of the \<^verbatim>\<open>to_dict\<close> of the children that are not
  \<^verbatim>\<open>None\<close>, in their order, the \<^verbatim>\<open>None\<close> children being dropped.
\<close>

theorem to_dict_shape:
  assumes "fits (Suc n) h r"
  shows "\<exists>d ks. to_dict (Suc n) h r = Inr (PDict d)
           \<and> map fst d = [''node'', ''kid'', ''line'']
                 @ (if cls (h r) = ''Token'' then [''name'', ''value''] else [])
           \<and> map_of d ''node'' = Some (PStr (cls (h r)))
           \<and> map_of d ''line'' = Some (PInt (line (h r)))
           \<and> map_of d ''kid'' = Some (PList ks)
           \<and> map Inr ks = map (to_dict n h) (live (kid (h r)))
           \<and> live (kid (h r)) = map the (filter (\<lambda>x. x \<noteq> None) (kid (h r)))
           \<and> (cls (h r) = ''Token'' \<longrightarrow>
                 map_of d ''name'' = map_of (attrs (h r)) ''name''
               \<and> map_of d ''value'' = map_of (attrs (h r)) ''value'')"
proof -
  have live_eq: "live xs = map the (filter (\<lambda>x. x \<noteq> None) xs)" for xs :: "ref option list"
    by (induction xs rule: live.induct) auto
  from assms have "\<forall>x \<in> set (map (to_dict n h) (live (kid (h r)))). \<exists>v. x = Inr v"
    using to_dict_returns by auto
  then obtain ks where ks: "collect (map (to_dict n h) (live (kid (h r)))) = Inr ks"
    using collect_all_Inr by blast
  then have ks': "map Inr ks = map (to_dict n h) (live (kid (h r)))"
    using collect_Inr_D by fastforce
  show ?thesis
  proof (cases "cls (h r) = ''Token''")
    case True
    with assms obtain nm vl where
      a: "map_of (attrs (h r)) ''name'' = Some nm" "map_of (attrs (h r)) ''value'' = Some vl"
      by auto
    with ks True have "to_dict (Suc n) h r =
        Inr (PDict [(''node'', PStr (cls (h r))), (''kid'', PList ks),
                    (''line'', PInt (line (h r))), (''name'', nm), (''value'', vl)])"
      by (simp add: get_attr_def dict_set_def)
    with True a ks' live_eq show ?thesis by simp
  next
    case False
    with ks have "to_dict (Suc n) h r =
        Inr (PDict [(''node'', PStr (cls (h r))), (''kid'', PList ks),
                    (''line'', PInt (line (h r)))])"
      by simp
    with False ks' live_eq show ?thesis by simp
  qed
qed

theorem to_dict_shape_witness:
  "fits (Suc (Suc 0)) ex_heap 0
   \<and> (\<exists>d ks. to_dict (Suc (Suc 0)) ex_heap 0 = Inr (PDict d)
          \<and> map fst d = [''node'', ''kid'', ''line'']
          \<and> map_of d ''kid'' = Some (PList ks)
          \<and> map Inr ks = map (to_dict (Suc 0) ex_heap) [1, 2])
   \<and> to_dict (Suc 0) ex_heap 1 =
        Inr (PDict [(''node'', PStr ''Token''), (''kid'', PList []), (''line'', PInt 1),
                    (''name'', PStr ''NAME''), (''value'', PStr ''a'')])"
proof -
  have a: "fits (Suc (Suc 0)) ex_heap 0"
    by (simp add: ex_heap_def tok_def)
  have b: "to_dict (Suc 0) ex_heap 1 =
        Inr (PDict [(''node'', PStr ''Token''), (''kid'', PList []), (''line'', PInt 1),
                    (''name'', PStr ''NAME''), (''value'', PStr ''a'')])"
    by (simp add: ex_heap_def tok_def get_attr_def dict_set_def)
  have c: "cls (ex_heap 0) \<noteq> ''Token''" "live (kid (ex_heap 0)) = [1, 2]"
    by (simp_all add: ex_heap_def)
  from to_dict_shape [OF a] c a b show ?thesis by auto
qed

section \<open>Tree consistency under \<^verbatim>\<open>replace_node\<close>\<close>

subsection \<open>Lists with one slot overwritten\<close>

lemma in_set_update_iff:
  assumes "i < length xs"
  shows "x \<in> set (xs[i := v]) \<longleftrightarrow> x = v \<or> (\<exists>j < length xs. j \<noteq> i \<and> xs ! j = x)"
proof
  assume "x \<in> set (xs[i := v])"
  then obtain j where j: "j < length xs" "xs[i := v] ! j = x"
    by (auto simp: in_set_conv_nth)
  then show "x = v \<or> (\<exists>j < length xs. j \<noteq> i \<and> xs ! j = x)"
    by (cases "j = i") auto
next
  assume "x = v \<or> (\<exists>j < length xs. j \<noteq> i \<and> xs ! j = x)"
  then show "x \<in> set (xs[i := v])"
  proof
    assume "x = v"
    with assms show ?thesis by (simp add: set_update_memI)
  next
    assume "\<exists>j < length xs. j \<noteq> i \<and> xs ! j = x"
    then obtain j where "j < length xs" "j \<noteq> i" "xs ! j = x" by blast
    then have "xs[i := v] ! j = x" "j < length (xs[i := v])" by simp_all
    then show ?thesis by (metis nth_mem)
  qed
qed

lemma count_list_update:
  "i < length xs \<Longrightarrow>
     count_list (xs[i := v]) x + (if xs ! i = x then 1 else 0)
       = count_list xs x + (if v = x then 1 else 0)"
proof (induction xs arbitrary: i)
  case Nil
  then show ?case by simp
next
  case (Cons y ys)
  show ?case
  proof (cases i)
    case 0
    then show ?thesis by simp
  next
    case (Suc n)
    with Cons.prems have "n < length ys" by simp
    from Cons.IH [OF this] Suc show ?thesis by (simp split: if_splits)
  qed
qed

lemma Some_in_cut: "Some c \<in> set (xs[i := None]) \<Longrightarrow> Some c \<in> set xs"
  using set_update_subset_insert [of xs i None] by auto

subsection \<open>Trees\<close>

lemma tree_subset:
  assumes "\<And>q c. Some c \<in> set (kid (h1 q)) \<Longrightarrow> Some c \<in> set (kid (h2 q))"
  shows "tree h1 root \<subseteq> tree h2 root"
proof
  fix x assume "x \<in> tree h1 root"
  then show "x \<in> tree h2 root"
    by (induction rule: tree.induct) (auto intro: tree.intros assms)
qed

lemma tree_closed:
  assumes "root \<in> S" and "\<And>q c. q \<in> S \<Longrightarrow> Some c \<in> set (kid (h q)) \<Longrightarrow> c \<in> S"
  shows "tree h root \<subseteq> S"
proof
  fix x assume "x \<in> tree h root"
  then show "x \<in> S"
    by (induction rule: tree.induct) (auto intro: assms)
qed

lemma tree_cong:
  assumes "\<And>q. q \<in> tree h1 root \<Longrightarrow> kid (h2 q) = kid (h1 q)"
  shows "tree h2 root = tree h1 root"
proof
  show "tree h2 root \<subseteq> tree h1 root"
  proof
    fix x assume "x \<in> tree h2 root"
    then show "x \<in> tree h1 root"
    proof (induction rule: tree.induct)
      case root
      show ?case by (rule tree.root)
    next
      case (child q c)
      with assms [of q] show ?case by (auto intro: tree.child)
    qed
  qed
  show "tree h1 root \<subseteq> tree h2 root"
  proof
    fix x assume "x \<in> tree h1 root"
    then show "x \<in> tree h2 root"
    proof (induction rule: tree.induct)
      case root
      show ?case by (rule tree.root)
    next
      case (child q c)
      with assms [of q] show ?case by (auto intro: tree.child)
    qed
  qed
qed

lemma tree_has_edge:
  assumes "c \<in> tree h root" and "c \<noteq> root"
  shows "\<exists>q \<in> tree h root. Some c \<in> set (kid (h q))"
  using assms by (cases rule: tree.cases) auto

lemma consistent_cong:
  assumes "consistent h1 root"
    and same: "\<And>q. q \<in> tree h1 root \<Longrightarrow> kid (h2 q) = kid (h1 q) \<and> parent (h2 q) = parent (h1 q)"
  shows "consistent h2 root"
proof -
  have t: "tree h2 root = tree h1 root" using same by (intro tree_cong) simp
  show ?thesis
    unfolding consistent_def t
  proof (intro conjI ballI allI impI)
    fix c assume c: "c \<in> tree h1 root" "c \<noteq> root"
    with assms(1) obtain p where p: "p \<in> tree h1 root" "parent (h1 c) = Some p"
      "count_list (kid (h1 p)) (Some c) = 1"
      unfolding consistent_def by blast
    with same [of c] same [of p] c
    show "\<exists>p \<in> tree h1 root. parent (h2 c) = Some p \<and> count_list (kid (h2 p)) (Some c) = 1"
      by auto
  next
    fix p q c assume "p \<in> tree h1 root" "q \<in> tree h1 root"
      "Some c \<in> set (kid (h2 p))" "Some c \<in> set (kid (h2 q))"
    with same [of p] same [of q] assms(1) show "p = q"
      unfolding consistent_def by metis
  next
    fix p assume "p \<in> tree h1 root"
    with same [of p] assms(1) show "Some root \<notin> set (kid (h2 p))"
      unfolding consistent_def by metis
  qed
qed

text \<open>The invariant read by positions: a node is at one position of the tree at most.\<close>

lemma consistent_positions:
  assumes cons: "consistent h root" and p: "p \<in> tree h root" and q: "q \<in> tree h root"
    and i: "i < length (kid (h p))" "kid (h p) ! i = Some c"
    and j: "j < length (kid (h q))" "kid (h q) ! j = Some c"
  shows "p = q \<and> i = j"
proof -
  from i j have mem: "Some c \<in> set (kid (h p))" "Some c \<in> set (kid (h q))"
    by (metis nth_mem)+
  with cons p q have pq: "p = q" unfolding consistent_def by blast
  from mem(1) p have c: "c \<in> tree h root" by (rule tree.child [rotated])
  from cons p mem(1) have "c \<noteq> root" unfolding consistent_def by blast
  with cons c obtain p' where p': "p' \<in> tree h root" "count_list (kid (h p')) (Some c) = 1"
    unfolding consistent_def by blast
  then have "Some c \<in> set (kid (h p'))"
    by (metis count_list_0_iff zero_neq_one)
  with cons p p' mem(1) have "p' = p" unfolding consistent_def by blast
  with p' have one: "count_list (kid (h p)) (Some c) = 1" by simp
  have "i = j"
  proof (rule ccontr)
    assume ne: "i \<noteq> j"
    from count_list_update [OF i(1), of None "Some c"] i(2) one
    have "count_list ((kid (h p))[i := None]) (Some c) = 0" by simp
    then have "Some c \<notin> set ((kid (h p))[i := None])" by (simp add: count_list_0_iff)
    moreover from j pq ne have "\<exists>k < length (kid (h p)). k \<noteq> i \<and> kid (h p) ! k = Some c"
      by auto
    then have "Some c \<in> set ((kid (h p))[i := None])"
      using in_set_update_iff [OF i(1)] by blast
    ultimately show False by contradiction
  qed
  with pq show ?thesis by simp
qed

subsection \<open>Cutting a node out\<close>

lemma cut_parent_in_tree:
  assumes "p \<in> tree h root"
  shows "p \<in> tree (set_kid h p i None) root"
proof -
  have "x \<in> tree (set_kid h p i None) root \<or> p \<in> tree (set_kid h p i None) root"
    if "x \<in> tree h root" for x
    using that
  proof (induction rule: tree.induct)
    case root
    show ?case by (simp add: tree.root)
  next
    case (child q c)
    show ?case
    proof (cases "q = p \<or> p \<in> tree (set_kid h p i None) root")
      case True
      with child.IH show ?thesis by auto
    next
      case False
      with child.IH have q: "q \<in> tree (set_kid h p i None) root" "q \<noteq> p" by auto
      with child.hyps(2) have "Some c \<in> set (kid (set_kid h p i None q))"
        by (simp add: kid_set_kid)
      with q(1) show ?thesis by (auto intro: tree.child)
    qed
  qed
  from this [OF assms] show ?thesis by simp
qed

lemma cut_tree_subset: "tree (set_kid h p i None) root \<subseteq> tree h root"
  by (rule tree_subset) (auto simp: kid_set_kid dest: Some_in_cut split: if_splits)

lemma consistent_cut:
  assumes cons: "consistent h root" and node: "node \<in> tree h root" "node \<noteq> root"
    and par: "parent (h node) = Some p"
    and idx: "index_of (kid (h p)) (Some node) = Some i"
  shows "consistent (set_kid h p i None) root"
proof -
  let ?hc = "set_kid h p i None"
  have len: "i < length (kid (h p))" using idx by (rule index_of_less)
  have at: "kid (h p) ! i = Some node" using idx by (rule index_of_nth)
  have sub: "tree ?hc root \<subseteq> tree h root" by (rule cut_tree_subset)
  have edge: "Some c \<in> set (kid (h q))" if "Some c \<in> set (kid (?hc q))" for q c
    using that by (auto simp: kid_set_kid dest: Some_in_cut split: if_splits)
  show ?thesis
    unfolding consistent_def
  proof (intro conjI ballI allI impI)
    fix c assume c: "c \<in> tree ?hc root" "c \<noteq> root"
    then obtain q' where q': "q' \<in> tree ?hc root" "Some c \<in> set (kid (?hc q'))"
      using tree_has_edge by blast
    from c sub have "c \<in> tree h root" by blast
    with cons c(2) obtain q where q: "q \<in> tree h root" "parent (h c) = Some q"
      "count_list (kid (h q)) (Some c) = 1"
      unfolding consistent_def by blast
    then have "Some c \<in> set (kid (h q))" by (metis count_list_0_iff zero_neq_one)
    moreover from q' sub edge have "q' \<in> tree h root" "Some c \<in> set (kid (h q'))" by blast+
    ultimately have qq: "q' = q" using cons q(1) unfolding consistent_def by blast
    have cnt: "count_list (kid (?hc q)) (Some c) = 1"
    proof (cases "q = p")
      case False
      with q(3) show ?thesis by (simp add: kid_set_kid)
    next
      case True
      have "c \<noteq> node"
      proof
        assume "c = node"
        with count_list_update [OF len, of None "Some node"] at q(3) True
        have "count_list ((kid (h p))[i := None]) (Some node) = 0" by simp
        then have "Some node \<notin> set ((kid (h p))[i := None])" by (simp add: count_list_0_iff)
        with q'(2) qq True \<open>c = node\<close> show False by (simp add: kid_set_kid)
      qed
      with count_list_update [OF len, of None "Some c"] at q(3) True
      show ?thesis by (simp add: kid_set_kid)
    qed
    from q' qq q(2) cnt
    show "\<exists>p \<in> tree ?hc root. parent (?hc c) = Some p \<and> count_list (kid (?hc p)) (Some c) = 1"
      by (auto simp: parent_set_kid)
  next
    fix q1 q2 c assume "q1 \<in> tree ?hc root" "q2 \<in> tree ?hc root"
      "Some c \<in> set (kid (?hc q1))" "Some c \<in> set (kid (?hc q2))"
    with sub edge have "q1 \<in> tree h root" "q2 \<in> tree h root"
      "Some c \<in> set (kid (h q1))" "Some c \<in> set (kid (h q2))" by blast+
    with cons show "q1 = q2" unfolding consistent_def by blast
  next
    fix q assume "q \<in> tree ?hc root"
    with sub have "q \<in> tree h root" by blast
    with cons have "Some root \<notin> set (kid (h q))" unfolding consistent_def by blast
    with edge show "Some root \<notin> set (kid (?hc q))" by blast
  qed
qed

subsection \<open>Putting a tree into an empty slot\<close>

lemma consistent_graft:
  assumes cons: "consistent h root" and consm: "consistent h m"
    and p: "p \<in> tree h root" and len: "i < length (kid (h p))" and at: "kid (h p) ! i = None"
    and disj: "tree h m \<inter> tree h root = {}"
  shows "consistent (set_parent (set_kid h p i (Some m)) m (Some p)) root"
proof -
  let ?h' = "set_parent (set_kid h p i (Some m)) m (Some p)"
  have kid': "kid (?h' q) = (if q = p then (kid (h p))[i := Some m] else kid (h q))" for q
    by (simp add: kid_set_parent kid_set_kid)
  have par': "parent (?h' q) = (if q = m then Some p else parent (h q))" for q
    by (simp add: parent_set_parent parent_set_kid)
  have upd: "Some c \<in> set ((kid (h p))[i := Some m]) \<longleftrightarrow> c = m \<or> Some c \<in> set (kid (h p))" for c
  proof -
    have "Some c \<in> set (kid (h p)) \<longleftrightarrow> (\<exists>j < length (kid (h p)). j \<noteq> i \<and> kid (h p) ! j = Some c)"
      using at by (metis in_set_conv_nth option.distinct(1))
    then show ?thesis using in_set_update_iff [OF len, of "Some c" "Some m"] by auto
  qed
  have edge: "Some c \<in> set (kid (?h' q)) \<longleftrightarrow> (q = p \<and> c = m) \<or> Some c \<in> set (kid (h q))" for q c
    using upd by (auto simp: kid')
  have m_in: "m \<in> tree h m" and root_in: "root \<in> tree h root" by (rule tree.root)+
  from disj p m_in root_in have ne: "p \<notin> tree h m" "m \<notin> tree h root" "root \<notin> tree h m" "root \<noteq> m"
    by auto
  have m_not_child: "Some m \<notin> set (kid (h q))" if "q \<in> tree h root \<or> q \<in> tree h m" for q
  proof
    assume e: "Some m \<in> set (kid (h q))"
    from that show False
    proof
      assume "q \<in> tree h root"
      then have "m \<in> tree h root" using e by (rule tree.child)
      with ne show False by simp
    next
      assume "q \<in> tree h m"
      with consm e show False unfolding consistent_def by blast
    qed
  qed
  have t_sub: "tree ?h' root \<subseteq> tree h root \<union> tree h m"
  proof (rule tree_closed)
    show "root \<in> tree h root \<union> tree h m" using root_in by simp
  next
    fix q c assume "q \<in> tree h root \<union> tree h m" "Some c \<in> set (kid (?h' q))"
    then show "c \<in> tree h root \<union> tree h m"
      using m_in by (auto simp: edge intro: tree.child)
  qed
  have t_root: "tree h root \<subseteq> tree ?h' root"
    by (rule tree_subset) (simp add: edge)
  have "p \<in> tree ?h' root" using p t_root by blast
  then have m_in': "m \<in> tree ?h' root"
    by (rule tree.child) (simp add: edge)
  have t_m: "tree h m \<subseteq> tree ?h' root"
  proof
    fix x assume "x \<in> tree h m"
    then show "x \<in> tree ?h' root"
    proof (induction rule: tree.induct)
      case root
      show ?case by (rule m_in')
    next
      case (child q c)
      from child.IH show ?case by (rule tree.child) (simp add: edge child.hyps)
    qed
  qed
  have t_eq: "tree ?h' root = tree h root \<union> tree h m" using t_sub t_root t_m by blast
  have cnt: "count_list (kid (?h' q)) (Some c) = count_list (kid (h q)) (Some c)"
    if "c \<noteq> m" for q c
    using that count_list_update [OF len, of "Some m" "Some c"] at by (simp add: kid')
  show ?thesis
    unfolding consistent_def t_eq
  proof (intro conjI ballI allI impI)
    fix c assume c: "c \<in> tree h root \<union> tree h m" "c \<noteq> root"
    show "\<exists>q \<in> tree h root \<union> tree h m.
            parent (?h' c) = Some q \<and> count_list (kid (?h' q)) (Some c) = 1"
    proof (cases "c = m")
      case True
      have "Some m \<notin> set (kid (h p))" using m_not_child p by blast
      then have "count_list (kid (h p)) (Some m) = 0" by (simp add: count_list_0_iff)
      with count_list_update [OF len, of "Some m" "Some m"] at
      have "count_list (kid (?h' p)) (Some m) = 1" by (simp add: kid')
      with True p show ?thesis by (auto simp: par')
    next
      case False
      from c(1) show ?thesis
      proof
        assume "c \<in> tree h root"
        with cons c(2) obtain q where "q \<in> tree h root" "parent (h c) = Some q"
          "count_list (kid (h q)) (Some c) = 1"
          unfolding consistent_def by blast
        with False show ?thesis by (auto simp: par' cnt)
      next
        assume "c \<in> tree h m"
        with consm False obtain q where "q \<in> tree h m" "parent (h c) = Some q"
          "count_list (kid (h q)) (Some c) = 1"
          unfolding consistent_def by blast
        with False show ?thesis by (auto simp: par' cnt)
      qed
    qed
  next
    fix q1 q2 c
    assume q: "q1 \<in> tree h root \<union> tree h m" "q2 \<in> tree h root \<union> tree h m"
      and e: "Some c \<in> set (kid (?h' q1))" "Some c \<in> set (kid (?h' q2))"
    show "q1 = q2"
    proof (cases "c = m")
      case True
      with e q m_not_child show ?thesis by (auto simp: edge)
    next
      case False
      with e have e': "Some c \<in> set (kid (h q1))" "Some c \<in> set (kid (h q2))"
        by (simp_all add: edge)
      have in_root: "c \<in> tree h root" if "x \<in> tree h root" "Some c \<in> set (kid (h x))" for x
        using that by (rule tree.child)
      have in_m: "c \<in> tree h m" if "x \<in> tree h m" "Some c \<in> set (kid (h x))" for x
        using that by (rule tree.child)
      from q(1) show ?thesis
      proof
        assume q1: "q1 \<in> tree h root"
        from q(2) show ?thesis
        proof
          assume "q2 \<in> tree h root"
          with cons q1 e' show ?thesis unfolding consistent_def by blast
        next
          assume "q2 \<in> tree h m"
          with in_m e'(2) in_root [OF q1 e'(1)] disj show ?thesis by blast
        qed
      next
        assume q1: "q1 \<in> tree h m"
        from q(2) show ?thesis
        proof
          assume "q2 \<in> tree h root"
          with in_root e'(2) in_m [OF q1 e'(1)] disj show ?thesis by blast
        next
          assume "q2 \<in> tree h m"
          with consm q1 e' show ?thesis unfolding consistent_def by blast
        qed
      qed
    qed
  next
    fix q assume q: "q \<in> tree h root \<union> tree h m"
    show "Some root \<notin> set (kid (?h' q))"
    proof
      assume "Some root \<in> set (kid (?h' q))"
      with ne have e: "Some root \<in> set (kid (h q))" by (simp add: edge)
      from q show False
      proof
        assume "q \<in> tree h root"
        with cons e show False unfolding consistent_def by blast
      next
        assume "q \<in> tree h m"
        then have "root \<in> tree h m" using e by (rule tree.child)
        with ne show False by simp
      qed
    qed
  qed
qed

subsection \<open>The invariant over a call of \<^verbatim>\<open>replace_node\<close>\<close>

lemma consistentI:
  assumes "tree h root \<subseteq> S"
    and "\<And>c. c \<in> S \<Longrightarrow> c \<noteq> root \<Longrightarrow>
           \<exists>p \<in> tree h root. parent (h c) = Some p \<and> count_list (kid (h p)) (Some c) = 1"
    and "\<And>p q c. p \<in> S \<Longrightarrow> q \<in> S \<Longrightarrow> Some c \<in> set (kid (h p))
           \<Longrightarrow> Some c \<in> set (kid (h q)) \<Longrightarrow> p = q"
    and "\<And>p. p \<in> S \<Longrightarrow> Some root \<notin> set (kid (h p))"
  shows "consistent h root"
  unfolding consistent_def using assms by (intro conjI ballI allI impI) blast+

lemma ex_heap_tree: "tree ex_heap 0 \<subseteq> {0, 1, 2}"
  by (rule tree_closed) (auto simp: ex_heap_def tok_def blank_def split: if_splits)

lemma ex_heap_consistent: "consistent ex_heap 0"
proof (rule consistentI [OF ex_heap_tree])
  fix c :: ref assume "c \<in> {0, 1, 2}" "c \<noteq> 0"
  then have "parent (ex_heap c) = Some 0 \<and> count_list (kid (ex_heap 0)) (Some c) = 1"
    by (auto simp: ex_heap_def tok_def)
  then show "\<exists>p \<in> tree ex_heap 0. parent (ex_heap c) = Some p
               \<and> count_list (kid (ex_heap p)) (Some c) = 1"
    using tree.root [of 0 ex_heap] by blast
next
  fix p q :: ref and c
  assume "p \<in> {0, 1, 2}" "q \<in> {0, 1, 2}"
    "Some c \<in> set (kid (ex_heap p))" "Some c \<in> set (kid (ex_heap q))"
  then show "p = q" by (auto simp: ex_heap_def tok_def)
next
  fix p :: ref assume "p \<in> {0, 1, 2}"
  then show "Some 0 \<notin> set (kid (ex_heap p))" by (auto simp: ex_heap_def tok_def)
qed

lemma ex_heap_fresh: "tree ex_heap 3 \<subseteq> {3}" "consistent ex_heap 3"
proof -
  show t: "tree ex_heap 3 \<subseteq> {3}"
    by (rule tree_closed) (auto simp: ex_heap_def blank_def)
  show "consistent ex_heap 3"
    by (rule consistentI [OF t]) (auto simp: ex_heap_def blank_def)
qed

lemma ex_heap_remainder: "remainder ex_heap 0 1 \<subseteq> {0, 2}"
proof -
  have "replace_node ex_heap 1 None = Inr (set_kid ex_heap 0 0 None, None)"
    by (simp add: replace_node_def ex_heap_def tok_def)
  then have "remainder ex_heap 0 1 = tree (set_kid ex_heap 0 0 None) 0"
    by (simp add: remainder_def)
  moreover have "tree (set_kid ex_heap 0 0 None) 0 \<subseteq> {0, 2}"
    by (rule tree_closed)
       (auto simp: set_kid_def ex_heap_def tok_def blank_def split: if_splits)
  ultimately show ?thesis by simp
qed

text \<open>
  The usual call in a rewriting pass replaces a node by its own child; in the chain, the
  node at 1 by its child at 2.
\<close>

lemma ex_chain_tree: "tree ex_chain 0 \<subseteq> {0, 1, 2}" "1 \<in> tree ex_chain 0"
proof -
  show "tree ex_chain 0 \<subseteq> {0, 1, 2}"
    by (rule tree_closed) (auto simp: ex_chain_def tok_def blank_def split: if_splits)
  show "1 \<in> tree ex_chain 0"
    by (rule tree.child [OF tree.root, of _ _ 0]) (simp add: ex_chain_def)
qed

lemma ex_chain_consistent: "consistent ex_chain 0"
proof (rule consistentI [OF ex_chain_tree(1)])
  fix c :: ref assume "c \<in> {0, 1, 2}" "c \<noteq> 0"
  then have "c = 1 \<or> c = 2" by auto
  then show "\<exists>p \<in> tree ex_chain 0. parent (ex_chain c) = Some p
               \<and> count_list (kid (ex_chain p)) (Some c) = 1"
  proof
    assume "c = 1"
    then show ?thesis using tree.root [of 0 ex_chain] by (auto simp: ex_chain_def blank_def)
  next
    assume "c = 2"
    then show ?thesis using ex_chain_tree(2) by (auto simp: ex_chain_def blank_def tok_def)
  qed
next
  fix p q :: ref and c
  assume "p \<in> {0, 1, 2}" "q \<in> {0, 1, 2}"
    "Some c \<in> set (kid (ex_chain p))" "Some c \<in> set (kid (ex_chain q))"
  then show "p = q" by (auto simp: ex_chain_def tok_def blank_def)
next
  fix p :: ref assume "p \<in> {0, 1, 2}"
  then show "Some 0 \<notin> set (kid (ex_chain p))" by (auto simp: ex_chain_def tok_def blank_def)
qed

lemma ex_chain_child:
  "consistent ex_chain 2" "tree ex_chain 2 \<inter> remainder ex_chain 0 1 = {}"
proof -
  have t2: "tree ex_chain 2 \<subseteq> {2}"
    by (rule tree_closed) (auto simp: ex_chain_def tok_def)
  show "consistent ex_chain 2"
    by (rule consistentI [OF t2]) (auto simp: ex_chain_def tok_def)
  have cut: "replace_node ex_chain 1 None = Inr (set_kid ex_chain 0 0 None, None)"
    by (simp add: replace_node_def ex_chain_def blank_def)
  have "tree (set_kid ex_chain 0 0 None) 0 \<subseteq> {0}"
    by (rule tree_closed) (auto simp: set_kid_def ex_chain_def blank_def)
  with cut have "remainder ex_chain 0 1 \<subseteq> {0}" by (simp add: remainder_def)
  with t2 show "tree ex_chain 2 \<inter> remainder ex_chain 0 1 = {}" by auto
qed

text \<open>
  The token at 1 replaced by its sibling at 2: both updates are made, and the node at 2
  is then twice in the child list of its parent.
\<close>

lemma ex_dup_replace: "replace_node ex_heap 1 (Some 2) = Inr (ex_dup, Some 2)"
  by (simp add: replace_node_def ex_dup_def ex_heap_def tok_def parent_set_kid)

lemma ex_dup_fields: "kid (ex_dup 0) = [Some 2, Some 2]" "parent (ex_dup 2) = Some 0"
  by (simp_all add: ex_dup_def set_parent_def set_kid_def ex_heap_def tok_def)

lemma ex_dup_inconsistent: "\<not> consistent ex_dup 0"
proof -
  have "2 \<in> tree ex_dup 0"
    by (rule tree.child [OF tree.root, of _ _ 0]) (simp add: ex_dup_fields)
  moreover have "\<not> (\<exists>p \<in> tree ex_dup 0. parent (ex_dup 2) = Some p
                     \<and> count_list (kid (ex_dup p)) (Some 2) = 1)"
    using ex_dup_fields by auto
  ultimately show ?thesis
    unfolding consistent_def by (metis zero_neq_numeral)
qed

text \<open>
  The invariant over a call: the tree of \<open>root\<close> stays consistent when a node of it
  other than the root gives way to nothing, or to the head of a consistent tree that has
  no node in common with what is left once the node is cut out.
\<close>

lemma replace_node_consistent:
  assumes cons: "consistent h root" and node: "node \<in> tree h root" "node \<noteq> root"
    and new: "new_node = None \<or>
              (\<exists>m. new_node = Some m \<and> consistent h m
                   \<and> tree h m \<inter> remainder h root node = {})"
  shows "\<exists>h'. replace_node h node new_node = Inr (h', new_node) \<and> consistent h' root"
proof -
  from cons node obtain p where p: "p \<in> tree h root" "parent (h node) = Some p"
    "count_list (kid (h p)) (Some node) = 1"
    unfolding consistent_def by blast
  then have "Some node \<in> set (kid (h p))" by (metis count_list_0_iff zero_neq_one)
  then obtain i where i: "index_of (kid (h p)) (Some node) = Some i"
    using index_of_Some_iff by fastforce
  let ?hc = "set_kid h p i None"
  have len: "i < length (kid (h p))" using i by (rule index_of_less)
  have cut: "replace_node h node None = Inr (?hc, None)"
    using replace_node_Some [OF p(2) i, of None] by simp
  have cons_cut: "consistent ?hc root"
    using cons node p(2) i by (rule consistent_cut)
  show ?thesis
  proof (cases new_node)
    case None
    with cut cons_cut show ?thesis by simp
  next
    case (Some m)
    with new cut have consm: "consistent h m" and disj: "tree h m \<inter> tree ?hc root = {}"
      by (simp_all add: remainder_def)
    have p_cut: "p \<in> tree ?hc root" using p(1) by (rule cut_parent_in_tree)
    with disj have "p \<notin> tree h m" by blast
    then have same: "kid (?hc q) = kid (h q) \<and> parent (?hc q) = parent (h q)"
      if "q \<in> tree h m" for q
      using that by (auto simp: kid_set_kid parent_set_kid)
    have consm_cut: "consistent ?hc m" using consm same by (rule consistent_cong)
    have "tree ?hc m = tree h m" using same by (intro tree_cong) simp
    with disj have disj_cut: "tree ?hc m \<inter> tree ?hc root = {}" by simp
    have len_cut: "i < length (kid (?hc p))" and at_cut: "kid (?hc p) ! i = None"
      using len by (simp_all add: kid_set_kid)
    have "set_kid ?hc p i (Some m) = set_kid h p i (Some m)"
      by (simp add: set_kid_def)
    with consistent_graft [OF cons_cut consm_cut p_cut len_cut at_cut disj_cut]
    have "consistent (set_parent (set_kid h p i (Some m)) m (Some p)) root" by simp
    moreover have "replace_node h node new_node =
        Inr (set_parent (set_kid h p i (Some m)) m (Some p), new_node)"
      using replace_node_Some [OF p(2) i, of new_node] Some by simp
    ultimately show ?thesis by blast
  qed
qed

text \<open>
  The claim C2 as it is stated fails.  The example tree is consistent; replacing the token
  at 1 by its sibling at 2 leaves the child list \<^verbatim>\<open>[2, 2]\<close>, in which the node at 2
  occurs twice.
\<close>

theorem replace_node_consistency_counterexample:
  "consistent ex_heap 0
   \<and> replace_node ex_heap 1 (Some 2) = Inr (ex_dup, Some 2)
   \<and> kid (ex_dup 0) = [Some 2, Some 2]
   \<and> \<not> consistent ex_dup 0"
  using ex_heap_consistent ex_dup_replace ex_dup_fields(1) ex_dup_inconsistent by simp

text \<open>
  C2, as amended.  Let the tree of \<open>root\<close> be consistent and let \<open>node\<close> be a node of it
  other than the root.  Then \<^verbatim>\<open>replace_node(node, new_node)\<close> returns and leaves a
  consistent tree of \<open>root\<close>, if \<open>new_node\<close> is \<^verbatim>\<open>None\<close>, or if \<open>new_node\<close> heads a
  consistent tree of its own that has no node in common with what is left of the tree
  once \<open>node\<close> is cut out: a node from outside the tree, or one from below \<open>node\<close>.
\<close>

theorem replace_node_preserves_consistency:
  assumes cons: "consistent h root" and node: "node \<in> tree h root" "node \<noteq> root"
    and new: "new_node = None \<or>
              (\<exists>m. new_node = Some m \<and> consistent h m
                   \<and> tree h m \<inter> remainder h root node = {})"
  shows "\<exists>h'. replace_node h node new_node = Inr (h', new_node) \<and> consistent h' root"
  using assms by (rule replace_node_consistent)

theorem replace_node_preserves_consistency_witness:
  "consistent ex_heap 0 \<and> 1 \<in> tree ex_heap 0 \<and> (1::ref) \<noteq> 0
   \<and> consistent ex_heap 3 \<and> tree ex_heap 3 \<inter> remainder ex_heap 0 1 = {}
   \<and> (\<exists>h'. replace_node ex_heap 1 (Some 3) = Inr (h', Some 3) \<and> consistent h' 0)
   \<and> consistent ex_chain 0 \<and> 1 \<in> tree ex_chain 0
   \<and> consistent ex_chain 2 \<and> tree ex_chain 2 \<inter> remainder ex_chain 0 1 = {}
   \<and> (\<exists>h'. replace_node ex_chain 1 (Some 2) = Inr (h', Some 2) \<and> consistent h' 0)"
proof -
  have a: "1 \<in> tree ex_heap 0"
    by (rule tree.child [OF tree.root, of _ _ 0]) (simp add: ex_heap_def)
  have b: "(1::ref) \<noteq> 0" by simp
  have d: "tree ex_heap 3 \<inter> remainder ex_heap 0 1 = {}"
    using ex_heap_fresh(1) ex_heap_remainder by auto
  have fresh: "Some 3 = None \<or>
        (\<exists>m. Some 3 = Some m \<and> consistent ex_heap m
             \<and> tree ex_heap m \<inter> remainder ex_heap 0 1 = {})"
    using ex_heap_fresh(2) d by simp
  have below: "Some 2 = None \<or>
        (\<exists>m. Some 2 = Some m \<and> consistent ex_chain m
             \<and> tree ex_chain m \<inter> remainder ex_chain 0 1 = {})"
    using ex_chain_child by simp
  from replace_node_preserves_consistency [OF ex_heap_consistent a b fresh]
    replace_node_preserves_consistency [OF ex_chain_consistent ex_chain_tree(2) b below]
    ex_heap_consistent a b ex_heap_fresh(2) d ex_chain_consistent ex_chain_tree(2) ex_chain_child
  show ?thesis by blast
qed

section \<open>The two updates of \<^verbatim>\<open>replace_node\<close>\<close>

text \<open>
  The claim C1 as it is stated fails in its last part.  In the example tree the token at 1
  has the parent 0 and is in its child list; replacing it by its sibling at 2 fills the
  slot and sets the parent pointer, and the tree is not consistent after the call.
\<close>

theorem replace_node_updates_counterexample:
  "parent (ex_heap 1) = Some 0 \<and> Some 1 \<in> set (kid (ex_heap 0)) \<and> consistent ex_heap 0
   \<and> replace_node ex_heap 1 (Some 2) = Inr (ex_dup, Some 2)
   \<and> kid (ex_dup 0) ! 0 = Some 2 \<and> parent (ex_dup 2) = Some 0
   \<and> \<not> consistent ex_dup 0"
proof -
  have "parent (ex_heap 1) = Some 0" "Some 1 \<in> set (kid (ex_heap 0))"
    by (simp_all add: ex_heap_def tok_def)
  moreover have "kid (ex_dup 0) ! 0 = Some 2" by (simp add: ex_dup_fields)
  ultimately show ?thesis
    using ex_heap_consistent ex_dup_replace ex_dup_fields(2) ex_dup_inconsistent by simp
qed

text \<open>
  C1, as amended.  Let \<open>node\<close> have the parent \<open>p\<close> and occur in the child list of \<open>p\<close>,
  and let \<open>m\<close> be any replacement node.  Then \<^verbatim>\<open>replace_node(node, m)\<close> returns \<open>m\<close>,
  and in the store it leaves, the child slot of \<open>p\<close> at the position of \<open>node\<close> (the
  first one where \<open>node\<close> stood) holds \<open>m\<close> and the parent pointer of \<open>m\<close> is \<open>p\<close>, the
  parent of \<open>node\<close>: both updates are made by the one call, so slot and pointer agree.
  The tree of a root stays consistent after the call if it was consistent before,
  \<open>node\<close> is a node of it other than the root, and \<open>m\<close> heads a consistent tree of its
  own that has no node in common with what is left of the tree once \<open>node\<close> is cut out.
\<close>

theorem replace_node_updates_slot_and_parent:
  assumes "parent (h node) = Some p" and "Some node \<in> set (kid (h p))"
  shows "\<exists>h' i. replace_node h node (Some m) = Inr (h', Some m)
           \<and> index_of (kid (h p)) (Some node) = Some i
           \<and> kid (h p) ! i = Some node \<and> (\<forall>j < i. kid (h p) ! j \<noteq> Some node)
           \<and> i < length (kid (h' p))
           \<and> kid (h' p) ! i = Some m
           \<and> parent (h' m) = parent (h node)
           \<and> (consistent h root \<and> node \<in> tree h root \<and> node \<noteq> root
                \<and> consistent h m \<and> tree h m \<inter> remainder h root node = {}
               \<longrightarrow> consistent h' root)"
proof -
  from assms(2) obtain i where i: "index_of (kid (h p)) (Some node) = Some i"
    using index_of_Some_iff by fastforce
  then have len: "i < length (kid (h p))" by (rule index_of_less)
  let ?h' = "set_parent (set_kid h p i (Some m)) m (Some p)"
  have r: "replace_node h node (Some m) = Inr (?h', Some m)"
    using replace_node_Some [OF assms(1) i] by simp
  have "kid (?h' p) ! i = Some m" "i < length (kid (?h' p))"
    using len by (simp_all add: kid_set_parent kid_set_kid)
  moreover have "parent (?h' m) = parent (h node)"
    using assms(1) by (simp add: parent_set_parent)
  moreover have "kid (h p) ! i = Some node" using i by (rule index_of_nth)
  moreover have "\<forall>j < i. kid (h p) ! j \<noteq> Some node" using index_of_first [OF i] by blast
  moreover have "consistent ?h' root"
    if c: "consistent h root \<and> node \<in> tree h root \<and> node \<noteq> root
             \<and> consistent h m \<and> tree h m \<inter> remainder h root node = {}"
  proof -
    from c have "Some m = None \<or>
        (\<exists>m'. Some m = Some m' \<and> consistent h m' \<and> tree h m' \<inter> remainder h root node = {})"
      by simp
    with c obtain h'' where "replace_node h node (Some m) = Inr (h'', Some m)"
      "consistent h'' root"
      using replace_node_consistent [of h root node "Some m"] by blast
    with r show ?thesis by simp
  qed
  ultimately show ?thesis using r i by blast
qed

theorem replace_node_updates_slot_and_parent_witness:
  "parent (ex_heap 1) = Some 0 \<and> Some 1 \<in> set (kid (ex_heap 0))
   \<and> consistent ex_heap 0 \<and> 1 \<in> tree ex_heap 0 \<and> (1::ref) \<noteq> 0
   \<and> consistent ex_heap 3 \<and> tree ex_heap 3 \<inter> remainder ex_heap 0 1 = {}
   \<and> (\<exists>h' i. replace_node ex_heap 1 (Some 3) = Inr (h', Some 3)
           \<and> index_of (kid (ex_heap 0)) (Some 1) = Some i
           \<and> kid (ex_heap 0) ! i = Some 1 \<and> (\<forall>j < i. kid (ex_heap 0) ! j \<noteq> Some 1)
           \<and> i < length (kid (h' 0))
           \<and> kid (h' 0) ! i = Some 3
           \<and> parent (h' 3) = parent (ex_heap 1)
           \<and> consistent h' 0)"
proof -
  have a: "parent (ex_heap 1) = Some 0" "Some 1 \<in> set (kid (ex_heap 0))"
    by (simp_all add: ex_heap_def tok_def)
  have t: "1 \<in> tree ex_heap 0"
    by (rule tree.child [OF tree.root, of _ _ 0]) (simp add: ex_heap_def)
  have d: "tree ex_heap 3 \<inter> remainder ex_heap 0 1 = {}"
    using ex_heap_fresh(1) ex_heap_remainder by auto
  have n: "(1::ref) \<noteq> 0" by simp
  from replace_node_updates_slot_and_parent [OF a, of 3 0]
    a ex_heap_consistent t n ex_heap_fresh(2) d
  show ?thesis by blast
qed

end
